theory Spec2Isabelle
  imports Main
begin

section \<open>Subsumption mapping generation (deeponto/data/align/subs\_maps.py)\<close>

text \<open>
  The development embeds the class \<open>SubsumptionMappingGenerator\<close>. Class names
  (abbreviated IRIs) are strings; ontology entities are values of a type \<open>'e\<close> compared
  by HOL equality, as the Python objects are compared by identity. Everything imported from
  modules outside the embedded file is collected in the record \<open>env\<close>.
\<close>

subsection \<open>External collaborators\<close>

record 'e env =
  unfold_iri :: "string \<Rightarrow> string"
  abbr_iri :: "string \<Rightarrow> string"
  iri :: "'e \<Rightarrow> string"
  super_thing_classes_of :: "'e \<Rightarrow> 'e list"
  sub_thing_classes_of :: "'e \<Rightarrow> 'e list"
  tgt_owl_search :: "string \<Rightarrow> 'e list"
  src_class2idx :: "string list"
  tgt_class2idx :: "string list"
  set_to_list :: "'e list \<Rightarrow> 'e list"

text \<open>
  \<open>tgt_owl_search E i\<close> is \<open>self.tgt_onto.owl.search(iri=i)\<close>; \<open>src_class2idx\<close> and
  \<open>tgt_class2idx\<close> are the keys of the two class indexes in iteration order.
  \<open>set_to_list E\<close> is the order in which Python enumerates a set of entities: the
  frontier \<open>list(set(cur_hop_neighbours) - set(explored))\<close> is \<open>set_to_list E\<close> applied to
  the duplicate-free list of the members of the difference. No theorem below depends on
  which order it picks unless it says so.
\<close>

text \<open>
  Modelled from the spec: \<open>deeponto.utils.uniqify\<close> is not part of the embedded sources;
  the spec says it deduplicates the pairs. The model keeps the first occurrence of every
  element, in order.
\<close>

fun uniqify_from :: "'a list \<Rightarrow> 'a list \<Rightarrow> 'a list" where
  "uniqify_from seen [] = []"
| "uniqify_from seen (x # xs) =
     (if x \<in> set seen then uniqify_from seen xs else x # uniqify_from (x # seen) xs)"

definition uniqify :: "'a list \<Rightarrow> 'a list" where
  "uniqify ls = uniqify_from [] ls"

subsection \<open>Errors\<close>

datatype error =
    ValueError string
  | IndexError
  | AssertionError
  | ReadError

subsection \<open>The generator object\<close>

text \<open>
  The attributes of \<open>self\<close> that only \<open>__init__\<close> assigns form the record \<open>config\<close>;
  the four attributes that \<open>renew_subs\<close> resets and the generation methods update form
  the record \<open>gen_record\<close>.
\<close>

record 'e config =
  rel :: string
  move :: "'e \<Rightarrow> 'e list"
  max_hop :: int
  equiv_pairs :: "(string \<times> string) list"
  max_subs_ratio :: int
  is_delete_equiv_tgt :: bool

record gen_record =
  sub_pairs :: "(string \<times> string) list"
  hop_record :: "string \<times> string \<rightharpoonup> int"
  delete_status :: "string \<rightharpoonup> bool"
  construct_status :: "string \<rightharpoonup> bool"

text \<open>
  \<open>defaultdict(lambda: False)\<close>: reading a missing key stores \<open>False\<close> under it and
  returns \<open>False\<close>.
\<close>

definition dd_get :: "('k \<rightharpoonup> bool) \<Rightarrow> 'k \<Rightarrow> bool \<times> ('k \<rightharpoonup> bool)" where
  "dd_get m k = (case m k of Some v \<Rightarrow> (v, m) | None \<Rightarrow> (False, m(k \<mapsto> False)))"

definition renew_subs :: "gen_record" where
  "renew_subs =
     \<lparr>sub_pairs = [], hop_record = Map.empty,
      delete_status = Map.empty, construct_status = Map.empty\<rparr>"

subsection \<open>The per-equivalence search\<close>

text \<open>
  The test \<open>self.is_delete_equiv_tgt and self.delete_status[neighbour_name]\<close>: the
  lookup (and its insertion of a default) happens only when the flag is set.
\<close>

definition deleted_check :: "'e config \<Rightarrow> string \<Rightarrow> gen_record \<Rightarrow> bool \<times> gen_record" where
  "deleted_check C name r =
     (if is_delete_equiv_tgt C
      then (let (d, ds) = dd_get (delete_status r) name in (d, r\<lparr>delete_status := ds\<rparr>))
      else (False, r))"

text \<open>
  The loop \<open>for neighbour in neighbours_of_ent\<close>. The local state is the record of the
  generator, \<open>valid_neighbours\<close> and \<open>num_added\<close>. The \<open>break\<close> ends this loop only.
\<close>

fun scan_neighbours ::
  "'e env \<Rightarrow> 'e config \<Rightarrow> string \<Rightarrow> int \<Rightarrow> 'e list \<Rightarrow>
   gen_record \<times> string list \<times> int \<Rightarrow> gen_record \<times> string list \<times> int" where
  "scan_neighbours E C src hop [] s = s"
| "scan_neighbours E C src hop (neighbour # rest) (r, valid, num_added) =
     (let neighbour_name = abbr_iri E (iri E neighbour);
          (d, r1) = deleted_check C neighbour_name r
      in if d then scan_neighbours E C src hop rest (r1, valid, num_added)
         else
           (let r2 = r1\<lparr>hop_record := (hop_record r1)((src, neighbour_name) \<mapsto> hop)\<rparr>;
                valid' = valid @ [neighbour_name];
                r3 = r2\<lparr>construct_status := (construct_status r2)(neighbour_name \<mapsto> True)\<rparr>;
                num_added' = num_added + 1
            in if num_added' = max_subs_ratio C then (r3, valid', num_added')
               else scan_neighbours E C src hop rest (r3, valid', num_added')))"

text \<open>
  The loop \<open>for ent in frontier\<close>; the local state gains \<open>cur_hop_neighbours\<close> and
  \<open>explored\<close>.
\<close>

fun scan_frontier ::
  "'e env \<Rightarrow> 'e config \<Rightarrow> string \<Rightarrow> int \<Rightarrow> 'e list \<Rightarrow>
   gen_record \<times> string list \<times> int \<times> 'e list \<times> 'e list \<Rightarrow>
   gen_record \<times> string list \<times> int \<times> 'e list \<times> 'e list" where
  "scan_frontier E C src hop [] s = s"
| "scan_frontier E C src hop (ent # rest) (r, valid, num_added, cur, explored) =
     (let neighbours_of_ent = move C ent;
          (r', valid', num_added') =
             scan_neighbours E C src hop neighbours_of_ent (r, valid, num_added)
      in scan_frontier E C src hop rest
           (r', valid', num_added', cur @ neighbours_of_ent, explored @ [ent]))"

text \<open>
  The \<open>while\<close> loop. It ends because \<open>hop\<close> grows by one in every round and is bounded
  by \<open>max_hop\<close>.
\<close>

function bfs ::
  "'e env \<Rightarrow> 'e config \<Rightarrow> string \<Rightarrow>
   gen_record \<times> string list \<times> int \<times> 'e list \<times> 'e list \<times> int \<Rightarrow>
   gen_record \<times> string list" where
  "bfs E C src (r, valid, num_added, frontier, explored, hop) =
     (if int (length valid) < max_subs_ratio C \<and> hop \<le> max_hop C
      then (case scan_frontier E C src hop frontier (r, valid, num_added, [], explored) of
              (r', valid', num_added', cur, explored') \<Rightarrow>
                bfs E C src
                  (r', valid', num_added',
                   set_to_list E (remdups (filter (\<lambda>e. e \<notin> set explored') cur)),
                   explored', hop + 1))
      else (r, valid))"
  by pat_completeness auto
termination
  by (relation "measure (\<lambda>(E, C, src, r, valid, num_added, frontier, explored, hop).
                   nat (max_hop C + 1 - hop))") auto

declare bfs.simps [simp del]

definition subs_from_an_equiv ::
  "'e env \<Rightarrow> 'e config \<Rightarrow> string \<Rightarrow> string \<Rightarrow> gen_record \<Rightarrow>
   error + ((string \<times> string) list \<times> gen_record)" where
  "subs_from_an_equiv E C src_ent_name tgt_ent_name r =
     (case tgt_owl_search E (unfold_iri E tgt_ent_name) of
        [] \<Rightarrow> Inl IndexError
      | tgt_ent # _ \<Rightarrow>
          (case bfs E C src_ent_name (r, [], 0, [tgt_ent], [], 1) of
             (r', valid_neighbours) \<Rightarrow>
               Inr (uniqify (map (\<lambda>neighbour_name. (src_ent_name, neighbour_name))
                               valid_neighbours), r')))"

subsection \<open>The static algorithm\<close>

text \<open>
  The first loop of \<open>static_subs_construct\<close>: every equivalence target that has a
  neighbour in the search direction is marked for deletion.
\<close>

fun static_mark ::
  "'e env \<Rightarrow> 'e config \<Rightarrow> (string \<times> string) list \<Rightarrow> gen_record \<Rightarrow> error + gen_record" where
  "static_mark E C [] r = Inr r"
| "static_mark E C ((src_equiv, tgt_equiv) # rest) r =
     (case tgt_owl_search E (unfold_iri E tgt_equiv) of
        [] \<Rightarrow> Inl IndexError
      | tgt_equiv_ent # _ \<Rightarrow>
          static_mark E C rest
            (if move C tgt_equiv_ent \<noteq> []
             then r\<lparr>delete_status := (delete_status r)(tgt_equiv \<mapsto> True)\<rparr>
             else r))"

text \<open>The second loop: \<open>self.sub_pairs += self.subs_from_an_equiv(src_equiv, tgt_equiv)\<close>.\<close>

fun static_collect ::
  "'e env \<Rightarrow> 'e config \<Rightarrow> (string \<times> string) list \<Rightarrow> gen_record \<Rightarrow> error + gen_record" where
  "static_collect E C [] r = Inr r"
| "static_collect E C ((src_equiv, tgt_equiv) # rest) r =
     (case subs_from_an_equiv E C src_equiv tgt_equiv r of
        Inl e \<Rightarrow> Inl e
      | Inr (subs, r') \<Rightarrow> static_collect E C rest (r'\<lparr>sub_pairs := sub_pairs r' @ subs\<rparr>))"

definition static_prepass :: "'e env \<Rightarrow> 'e config \<Rightarrow> error + gen_record" where
  "static_prepass E C =
     (if is_delete_equiv_tgt C then static_mark E C (equiv_pairs C) renew_subs
      else Inr renew_subs)"

definition static_subs_construct :: "'e env \<Rightarrow> 'e config \<Rightarrow> error + gen_record" where
  "static_subs_construct E C =
     (case static_prepass E C of
        Inl e \<Rightarrow> Inl e
      | Inr r1 \<Rightarrow>
          (case static_collect E C (equiv_pairs C) r1 of
             Inl e \<Rightarrow> Inl e
           | Inr r2 \<Rightarrow> Inr (r2\<lparr>sub_pairs := uniqify (sub_pairs r2)\<rparr>)))"

subsection \<open>The online algorithm\<close>

text \<open>
  The test \<open>self.is_delete_equiv_tgt and self.construct_status[tgt_equiv]\<close> that decides
  whether a pair is skipped.
\<close>

definition constructed_check :: "'e config \<Rightarrow> string \<Rightarrow> gen_record \<Rightarrow> bool \<times> gen_record" where
  "constructed_check C name r =
     (if is_delete_equiv_tgt C
      then (let (c, cs) = dd_get (construct_status r) name in (c, r\<lparr>construct_status := cs\<rparr>))
      else (False, r))"

text \<open>One round of the loop of \<open>online_subs_construct\<close>.\<close>

definition online_step ::
  "'e env \<Rightarrow> 'e config \<Rightarrow> string \<times> string \<Rightarrow> gen_record \<Rightarrow> error + gen_record" where
  "online_step E C p r =
     (case p of (src_equiv, tgt_equiv) \<Rightarrow>
        (case constructed_check C tgt_equiv r of
           (skip, r0) \<Rightarrow>
             if skip then Inr r0
             else
               (case subs_from_an_equiv E C src_equiv tgt_equiv r0 of
                  Inl e \<Rightarrow> Inl e
                | Inr (cur_subs, r1) \<Rightarrow>
                    (let r2 = (if is_delete_equiv_tgt C \<and> cur_subs \<noteq> []
                               then r1\<lparr>delete_status := (delete_status r1)(tgt_equiv \<mapsto> True)\<rparr>
                               else r1)
                     in Inr (r2\<lparr>sub_pairs := sub_pairs r2 @ cur_subs\<rparr>)))))"

fun online_loop ::
  "'e env \<Rightarrow> 'e config \<Rightarrow> (string \<times> string) list \<Rightarrow> gen_record \<Rightarrow> error + gen_record" where
  "online_loop E C [] r = Inr r"
| "online_loop E C (p # rest) r =
     (case online_step E C p r of
        Inl e \<Rightarrow> Inl e
      | Inr r' \<Rightarrow> online_loop E C rest r')"

definition online_subs_construct :: "'e env \<Rightarrow> 'e config \<Rightarrow> error + gen_record" where
  "online_subs_construct E C =
     (case online_loop E C (equiv_pairs C) renew_subs of
        Inl e \<Rightarrow> Inl e
      | Inr r \<Rightarrow> Inr (r\<lparr>sub_pairs := uniqify (sub_pairs r)\<rparr>))"

subsection \<open>The preserved-targets query\<close>

fun preserved_loop :: "'e env \<Rightarrow> string list \<Rightarrow> string list \<times> gen_record \<Rightarrow> string list \<times> gen_record" where
  "preserved_loop E [] s = s"
| "preserved_loop E (tgt_ent_name # rest) (preserved, r) =
     (let (d, ds) = dd_get (delete_status r) tgt_ent_name;
          r' = r\<lparr>delete_status := ds\<rparr>
      in preserved_loop E rest
           (if \<not> d then preserved @ [unfold_iri E tgt_ent_name] else preserved, r'))"

definition preserved_tgt_iris :: "'e env \<Rightarrow> gen_record \<Rightarrow> string list \<times> gen_record" where
  "preserved_tgt_iris E r = preserved_loop E (tgt_class2idx E) ([], r)"

text \<open>The classes whose deletion flag is true.\<close>

definition deleted_tgts :: "gen_record \<Rightarrow> string set" where
  "deleted_tgts r = {k. delete_status r k = Some True}"

definition constructed_tgts :: "gen_record \<Rightarrow> string set" where
  "constructed_tgts r = {k. construct_status r k = Some True}"

subsection \<open>Construction\<close>

text \<open>
  \<open>__init__\<close> reads the equivalence store through \<open>OntoMappings.read_tsv_mappings\<close>
  and draws one pair with \<open>random.choice\<close>. Both are parameters: \<open>read_tsv path\<close> is
  the list of tuples of the store at \<open>path\<close>, or \<open>None\<close> when reading fails, and
  \<open>pick\<close> is the random draw. The first component of the result lists the reads of the
  store that the constructor made.
\<close>

datatype event = ReadTsv string

definition init_record ::
  "'e env \<Rightarrow> (string \<Rightarrow> (string \<times> string) list option) \<Rightarrow> nat \<Rightarrow>
   string \<Rightarrow> ('e \<Rightarrow> 'e list) \<Rightarrow> string \<Rightarrow> int \<Rightarrow> bool \<Rightarrow> int \<Rightarrow>
   event list \<times> (error + 'e config \<times> gen_record)" where
  "init_record E read_tsv pick rel_arg mv equiv_mappings_path ratio is_delete hop_limit =
     (case read_tsv equiv_mappings_path of
        None \<Rightarrow> ([ReadTsv equiv_mappings_path], Inl ReadError)
      | Some pairs \<Rightarrow>
          ([ReadTsv equiv_mappings_path],
           if pairs = [] then Inl IndexError
           else
             (let check_pair = pairs ! (pick mod length pairs)
              in if fst check_pair \<notin> set (src_class2idx E) then Inl AssertionError
                 else if snd check_pair \<notin> set (tgt_class2idx E) then Inl AssertionError
                 else Inr (\<lparr>rel = rel_arg, move = mv, max_hop = hop_limit,
                             equiv_pairs = pairs, max_subs_ratio = ratio,
                             is_delete_equiv_tgt = is_delete\<rparr>,
                           renew_subs))))"

definition init ::
  "'e env \<Rightarrow> (string \<Rightarrow> (string \<times> string) list option) \<Rightarrow> nat \<Rightarrow>
   string \<Rightarrow> string \<Rightarrow> int \<Rightarrow> bool \<Rightarrow> int \<Rightarrow>
   event list \<times> (error + 'e config \<times> gen_record)" where
  "init E read_tsv pick rel_arg equiv_mappings_path ratio is_delete hop_limit =
     (if rel_arg = ''<''
      then init_record E read_tsv pick rel_arg (super_thing_classes_of E)
             equiv_mappings_path ratio is_delete hop_limit
      else if rel_arg = ''>''
      then init_record E read_tsv pick rel_arg (sub_thing_classes_of E)
             equiv_mappings_path ratio is_delete hop_limit
      else ([], Inl (ValueError (''Unknown subsumption relation: '' @ rel_arg))))"

subsection \<open>Predicates used by the statements\<close>

text \<open>
  The probe of the pre-pass of the static algorithm: the target resolves and the first
  match has at least one neighbour in the search direction.
\<close>

definition has_neighbour :: "'e env \<Rightarrow> 'e config \<Rightarrow> string \<Rightarrow> bool" where
  "has_neighbour E C tgt_equiv =
     (case tgt_owl_search E (unfold_iri E tgt_equiv) of
        [] \<Rightarrow> False
      | tgt_equiv_ent # _ \<Rightarrow> move C tgt_equiv_ent \<noteq> [])"

text \<open>
  The search that one round of the online loop runs for the pair \<open>p\<close> from the record
  \<open>r\<close> returns at least one pair.
\<close>

definition yields_subs :: "'e env \<Rightarrow> 'e config \<Rightarrow> string \<times> string \<Rightarrow> gen_record \<Rightarrow> bool" where
  "yields_subs E C p r =
     (case subs_from_an_equiv E C (fst p) (snd p) (snd (constructed_check C (snd p) r)) of
        Inl e \<Rightarrow> False
      | Inr (cur_subs, r1) \<Rightarrow> cur_subs \<noteq> [])"

subsection \<open>Example ontologies\<close>

text \<open>
  A target ontology given by the list of its classes with their direct super-classes.
  Entities are identified with their abbreviated names; the full IRI of a class \<open>n\<close>
  is \<open>o#n\<close>.
\<close>

definition onto_env :: "(string \<times> string list) list \<Rightarrow> (string list \<Rightarrow> string list) \<Rightarrow> string env" where
  "onto_env supers order =
     \<lparr>unfold_iri = (\<lambda>n. ''o#'' @ n),
      abbr_iri = drop 2,
      iri = (\<lambda>e. ''o#'' @ e),
      super_thing_classes_of = (\<lambda>e. case map_of supers e of None \<Rightarrow> [] | Some ps \<Rightarrow> ps),
      sub_thing_classes_of = (\<lambda>e. map fst (filter (\<lambda>(c, ps). e \<in> set ps) supers)),
      tgt_owl_search = (\<lambda>i. if take 2 i = ''o#'' \<and> drop 2 i \<in> set (map fst supers)
                              then [drop 2 i] else []),
      src_class2idx = [''A'', ''X'', ''Y''],
      tgt_class2idx = map fst supers,
      set_to_list = order\<rparr>"

definition broader_config ::
  "string env \<Rightarrow> (string \<times> string) list \<Rightarrow> int \<Rightarrow> int \<Rightarrow> string config" where
  "broader_config E pairs ratio hops =
     \<lparr>rel = ''<'', move = super_thing_classes_of E, max_hop = hops,
      equiv_pairs = pairs, max_subs_ratio = ratio, is_delete_equiv_tgt = True\<rparr>"

text \<open>A tree: \<open>B\<close> below \<open>C\<close> and \<open>D\<close>, \<open>C\<close> below \<open>E\<close> and \<open>F\<close>, \<open>D\<close> below \<open>G\<close> and \<open>H\<close>.\<close>

definition tree_onto :: "(string \<times> string list) list" where
  "tree_onto =
     [(''B'', [''C'', ''D'']), (''C'', [''E'', ''F'']), (''D'', [''G'', ''H'']),
      (''E'', []), (''F'', []), (''G'', []), (''H'', [])]"

text \<open>A hierarchy where \<open>D\<close> is a direct super-class of both \<open>B\<close> and \<open>C\<close>.\<close>

definition diamond_onto :: "(string \<times> string list) list" where
  "diamond_onto = [(''B'', [''C'', ''D'']), (''C'', [''D'']), (''D'', [])]"

text \<open>
  The tree with one equivalence pair \<open>(A, B)\<close>, at most three subsumptions per pair and
  at most three hops; once with the frontier enumerated in the order of first occurrence
  and once in the reverse order.
\<close>

definition tree_env :: "string env" where
  "tree_env = onto_env tree_onto id"

definition tree_config :: "string config" where
  "tree_config = broader_config tree_env [(''A'', ''B'')] 3 3"

definition tree_env_rev :: "string env" where
  "tree_env_rev = onto_env tree_onto rev"

definition tree_config_rev :: "string config" where
  "tree_config_rev = broader_config tree_env_rev [(''A'', ''B'')] 3 3"

definition tree_search :: "error + ((string \<times> string) list \<times> gen_record)" where
  "tree_search = subs_from_an_equiv tree_env tree_config ''A'' ''B'' renew_subs"

text \<open>The same tree with a maximum search depth of zero.\<close>

definition no_hop_config :: "string config" where
  "no_hop_config = broader_config tree_env [(''A'', ''B'')] 3 0"

text \<open>
  The second hierarchy: with three equivalence pairs and one subsumption per pair, and
  with one pair and room for ten subsumptions within two hops (in both orders of the
  frontier).
\<close>

definition diamond_env :: "string env" where
  "diamond_env = onto_env diamond_onto id"

definition diamond_config :: "string config" where
  "diamond_config =
     broader_config diamond_env [(''A'', ''B''), (''Y'', ''C''), (''X'', ''B'')] 1 2"

definition diamond_wide_config :: "string config" where
  "diamond_wide_config = broader_config diamond_env [(''A'', ''B'')] 10 2"

definition diamond_env_rev :: "string env" where
  "diamond_env_rev = onto_env diamond_onto rev"

definition diamond_wide_config_rev :: "string config" where
  "diamond_wide_config_rev = broader_config diamond_env_rev [(''A'', ''B'')] 10 2"

definition diamond_static :: "error + gen_record" where
  "diamond_static = static_subs_construct diamond_env diamond_config"

definition diamond_online :: "error + gen_record" where
  "diamond_online = online_subs_construct diamond_env diamond_config"

text \<open>The record of the online algorithm after its first pair \<open>(A, B)\<close>.\<close>

definition diamond_first :: "error + gen_record" where
  "diamond_first = online_loop diamond_env diamond_config [(''A'', ''B'')] renew_subs"

section \<open>Verification\<close>

subsection \<open>Unfolding the examples\<close>

lemmas example_defs =
  tree_env_def tree_config_def tree_env_rev_def tree_config_rev_def no_hop_config_def
  diamond_env_def diamond_config_def diamond_wide_config_def
  diamond_env_rev_def diamond_wide_config_rev_def
  onto_env_def broader_config_def tree_onto_def diamond_onto_def

lemmas run_defs =
  subs_from_an_equiv_def renew_subs_def uniqify_def deleted_check_def dd_get_def Let_def
  bfs.simps static_subs_construct_def static_prepass_def online_subs_construct_def
  online_step_def constructed_check_def preserved_tgt_iris_def

subsection \<open>Facts about the helper functions\<close>

lemma uniqify_from_set: "set (uniqify_from seen xs) = set xs - set seen"
  by (induction xs arbitrary: seen) auto

lemma uniqify_from_distinct: "distinct (uniqify_from seen xs)"
  by (induction xs arbitrary: seen) (auto simp: uniqify_from_set)

lemma uniqify_distinct: "distinct (uniqify xs)"
  by (simp add: uniqify_def uniqify_from_distinct)

lemma uniqify_set: "set (uniqify xs) = set xs"
  by (simp add: uniqify_def uniqify_from_set)

lemma deleted_check_frame:
  assumes "deleted_check C n r = (d, r1)"
  shows "sub_pairs r1 = sub_pairs r" and "hop_record r1 = hop_record r"
    and "construct_status r1 = construct_status r" and "deleted_tgts r1 = deleted_tgts r"
  using assms
  by (auto simp: deleted_check_def deleted_tgts_def dd_get_def split: option.splits if_splits)

lemma deleted_tgts_upd [simp]:
  "deleted_tgts (r\<lparr>hop_record := h\<rparr>) = deleted_tgts r"
  "deleted_tgts (r\<lparr>construct_status := c\<rparr>) = deleted_tgts r"
  "deleted_tgts (r\<lparr>sub_pairs := p\<rparr>) = deleted_tgts r"
  by (simp_all add: deleted_tgts_def)

lemma scan_neighbours_frame:
  "scan_neighbours E C src hop ns (r, valid, num) = (r', valid', num') \<Longrightarrow>
   sub_pairs r' = sub_pairs r \<and> deleted_tgts r' = deleted_tgts r"
proof (induction ns arbitrary: r valid num)
  case Nil
  then show ?case by simp
next
  case (Cons n ns)
  obtain d r1 where dc: "deleted_check C (abbr_iri E (iri E n)) r = (d, r1)"
    by fastforce
  note fr = deleted_check_frame [OF dc]
  show ?case
  proof (cases d)
    case True
    with Cons.prems dc have "scan_neighbours E C src hop ns (r1, valid, num) = (r', valid', num')"
      by simp
    from Cons.IH [OF this] fr show ?thesis by simp
  next
    case False
    let ?nm = "abbr_iri E (iri E n)"
    let ?r3 = "r1\<lparr>hop_record := (hop_record r1)((src, ?nm) \<mapsto> hop),
                   construct_status := (construct_status r1)(?nm \<mapsto> True)\<rparr>"
    show ?thesis
    proof (cases "num + 1 = max_subs_ratio C")
      case True
      with Cons.prems dc \<open>\<not> d\<close> have "r' = ?r3"
        by (simp add: Let_def)
      then show ?thesis using fr by simp
    next
      case nb: False
      from Cons.prems dc \<open>\<not> d\<close> nb
      have "scan_neighbours E C src hop ns (?r3, valid @ [?nm], num + 1) = (r', valid', num')"
        by (simp add: Let_def)
      from Cons.IH [OF this] fr show ?thesis by simp
    qed
  qed
qed

lemma scan_neighbours_hops:
  "scan_neighbours E C src hop ns (r, valid, num) = (r', valid', num') \<Longrightarrow>
   \<exists>new. valid' = valid @ new \<and> (\<forall>n\<in>set new. hop_record r' (src, n) = Some hop) \<and>
         (\<forall>k. k \<notin> Pair src ` set new \<longrightarrow> hop_record r' k = hop_record r k)"
proof (induction ns arbitrary: r valid num)
  case Nil
  then show ?case by simp
next
  case (Cons n ns)
  obtain d r1 where dc: "deleted_check C (abbr_iri E (iri E n)) r = (d, r1)"
    by fastforce
  note fr = deleted_check_frame(2) [OF dc]
  show ?case
  proof (cases d)
    case True
    with Cons.prems dc have "scan_neighbours E C src hop ns (r1, valid, num) = (r', valid', num')"
      by simp
    from Cons.IH [OF this] fr show ?thesis by simp
  next
    case False
    let ?nm = "abbr_iri E (iri E n)"
    let ?r3 = "r1\<lparr>hop_record := (hop_record r1)((src, ?nm) \<mapsto> hop),
                   construct_status := (construct_status r1)(?nm \<mapsto> True)\<rparr>"
    show ?thesis
    proof (cases "num + 1 = max_subs_ratio C")
      case True
      with Cons.prems dc \<open>\<not> d\<close> have "r' = ?r3" "valid' = valid @ [?nm]"
        by (simp_all add: Let_def)
      then have "valid' = valid @ [?nm] \<and> (\<forall>n\<in>set [?nm]. hop_record r' (src, n) = Some hop) \<and>
         (\<forall>k. k \<notin> Pair src ` set [?nm] \<longrightarrow> hop_record r' k = hop_record r k)"
        using fr by auto
      then show ?thesis by blast
    next
      case nb: False
      from Cons.prems dc \<open>\<not> d\<close> nb
      have "scan_neighbours E C src hop ns (?r3, valid @ [?nm], num + 1) = (r', valid', num')"
        by (simp add: Let_def)
      from Cons.IH [OF this] obtain new where
        n1: "valid' = (valid @ [?nm]) @ new"
        and n2: "\<forall>n\<in>set new. hop_record r' (src, n) = Some hop"
        and n3: "\<forall>k. k \<notin> Pair src ` set new \<longrightarrow> hop_record r' k = hop_record ?r3 k"
        by blast
      have "valid' = valid @ (?nm # new)" using n1 by simp
      moreover have "hop_record r' (src, ?nm) = Some hop"
      proof (cases "?nm \<in> set new")
        case True
        then show ?thesis using n2 by blast
      next
        case False
        then have "(src, ?nm) \<notin> Pair src ` set new" by auto
        with n3 have "hop_record r' (src, ?nm) = hop_record ?r3 (src, ?nm)" by blast
        then show ?thesis by simp
      qed
      then have "\<forall>n\<in>set (?nm # new). hop_record r' (src, n) = Some hop"
        using n2 by simp
      moreover have "\<forall>k. k \<notin> Pair src ` set (?nm # new) \<longrightarrow> hop_record r' k = hop_record r k"
      proof (intro allI impI)
        fix k assume k: "k \<notin> Pair src ` set (?nm # new)"
        then have "k \<notin> Pair src ` set new" and "k \<noteq> (src, ?nm)" by auto
        with n3 have "hop_record r' k = hop_record ?r3 k" by blast
        with \<open>k \<noteq> (src, ?nm)\<close> fr show "hop_record r' k = hop_record r k" by simp
      qed
      ultimately show ?thesis by blast
    qed
  qed
qed

lemma scan_frontier_frame:
  "scan_frontier E C src hop fr (r, valid, num, cur, explored) = (r', valid', num', cur', explored') \<Longrightarrow>
   sub_pairs r' = sub_pairs r \<and> deleted_tgts r' = deleted_tgts r"
proof (induction fr arbitrary: r valid num cur explored)
  case Nil
  then show ?case by simp
next
  case (Cons ent fr)
  obtain r1 valid1 num1 where
    sn: "scan_neighbours E C src hop (move C ent) (r, valid, num) = (r1, valid1, num1)"
    by (metis prod_cases3)
  with Cons.prems have
    "scan_frontier E C src hop fr (r1, valid1, num1, cur @ move C ent, explored @ [ent]) =
       (r', valid', num', cur', explored')"
    by (simp add: Let_def)
  from Cons.IH [OF this] scan_neighbours_frame [OF sn] show ?case by simp
qed

lemma scan_frontier_hops:
  "scan_frontier E C src hop fr (r, valid, num, cur, explored) = (r', valid', num', cur', explored') \<Longrightarrow>
   \<exists>new. valid' = valid @ new \<and> (\<forall>n\<in>set new. hop_record r' (src, n) = Some hop) \<and>
         (\<forall>k. k \<notin> Pair src ` set new \<longrightarrow> hop_record r' k = hop_record r k)"
proof (induction fr arbitrary: r valid num cur explored)
  case Nil
  then show ?case by simp
next
  case (Cons ent fr)
  obtain r1 valid1 num1 where
    sn: "scan_neighbours E C src hop (move C ent) (r, valid, num) = (r1, valid1, num1)"
    by (metis prod_cases3)
  with Cons.prems have
    "scan_frontier E C src hop fr (r1, valid1, num1, cur @ move C ent, explored @ [ent]) =
       (r', valid', num', cur', explored')"
    by (simp add: Let_def)
  from Cons.IH [OF this] obtain new2 where
    a1: "valid' = valid1 @ new2"
    and a2: "\<forall>n\<in>set new2. hop_record r' (src, n) = Some hop"
    and a3: "\<forall>k. k \<notin> Pair src ` set new2 \<longrightarrow> hop_record r' k = hop_record r1 k"
    by blast
  from scan_neighbours_hops [OF sn] obtain new1 where
    b1: "valid1 = valid @ new1"
    and b2: "\<forall>n\<in>set new1. hop_record r1 (src, n) = Some hop"
    and b3: "\<forall>k. k \<notin> Pair src ` set new1 \<longrightarrow> hop_record r1 k = hop_record r k"
    by blast
  have "valid' = valid @ (new1 @ new2)" using a1 b1 by simp
  moreover have "\<forall>n\<in>set (new1 @ new2). hop_record r' (src, n) = Some hop"
  proof
    fix n assume "n \<in> set (new1 @ new2)"
    show "hop_record r' (src, n) = Some hop"
    proof (cases "n \<in> set new2")
      case True
      then show ?thesis using a2 by blast
    next
      case False
      then have "(src, n) \<notin> Pair src ` set new2" by auto
      with a3 have "hop_record r' (src, n) = hop_record r1 (src, n)" by blast
      moreover from False \<open>n \<in> set (new1 @ new2)\<close> have "n \<in> set new1" by simp
      ultimately show ?thesis using b2 by simp
    qed
  qed
  moreover have "\<forall>k. k \<notin> Pair src ` set (new1 @ new2) \<longrightarrow> hop_record r' k = hop_record r k"
  proof (intro allI impI)
    fix k assume "k \<notin> Pair src ` set (new1 @ new2)"
    then have "k \<notin> Pair src ` set new1" and "k \<notin> Pair src ` set new2" by auto
    with a3 b3 have "hop_record r' k = hop_record r1 k" and "hop_record r1 k = hop_record r k"
      by blast+
    then show "hop_record r' k = hop_record r k" by simp
  qed
  ultimately show ?case by blast
qed

lemma bfs_stop:
  "\<not> (int (length valid) < max_subs_ratio C \<and> hop \<le> max_hop C) \<Longrightarrow>
   bfs E C src (r, valid, num, frontier, explored, hop) = (r, valid)"
  by (subst bfs.simps) auto

lemma bfs_step:
  "int (length valid) < max_subs_ratio C \<and> hop \<le> max_hop C \<Longrightarrow>
   scan_frontier E C src hop frontier (r, valid, num, [], explored) =
     (r1, valid1, num1, cur1, explored1) \<Longrightarrow>
   bfs E C src (r, valid, num, frontier, explored, hop) =
   bfs E C src (r1, valid1, num1,
      set_to_list E (remdups (filter (\<lambda>e. e \<notin> set explored1) cur1)), explored1, hop + 1)"
  by (subst bfs.simps) simp

lemma bfs_frame:
  "bfs E C src (r, valid, num, frontier, explored, hop) = (r', valid') \<Longrightarrow>
   sub_pairs r' = sub_pairs r \<and> deleted_tgts r' = deleted_tgts r"
proof (induction n \<equiv> "nat (max_hop C + 1 - hop)" arbitrary: r valid num frontier explored hop)
  case 0
  then have "\<not> (int (length valid) < max_subs_ratio C \<and> hop \<le> max_hop C)" by simp
  from bfs_stop [OF this] "0.prems" show ?case by simp
next
  case (Suc n)
  show ?case
  proof (cases "int (length valid) < max_subs_ratio C \<and> hop \<le> max_hop C")
    case False
    from bfs_stop [OF this] Suc.prems show ?thesis by simp
  next
    case True
    obtain r1 valid1 num1 cur1 explored1 where
      sf: "scan_frontier E C src hop frontier (r, valid, num, [], explored) =
             (r1, valid1, num1, cur1, explored1)"
      by (metis prod_cases5)
    from bfs_step [OF True sf] Suc.prems have
      b: "bfs E C src (r1, valid1, num1,
          set_to_list E (remdups (filter (\<lambda>e. e \<notin> set explored1) cur1)), explored1, hop + 1) =
         (r', valid')"
      by simp
    from Suc.hyps(2) have "n = nat (max_hop C + 1 - (hop + 1))" by simp
    from Suc.hyps(1) [OF this b] scan_frontier_frame [OF sf]
    show ?thesis by simp
  qed
qed

lemma bfs_hops:
  "bfs E C src (r, valid, num, frontier, explored, hop) = (r', valid') \<Longrightarrow>
   \<exists>new. valid' = valid @ new \<and>
         (\<forall>n\<in>set new. \<exists>h. hop_record r' (src, n) = Some h \<and> hop \<le> h \<and> h \<le> max_hop C) \<and>
         (\<forall>k. k \<notin> Pair src ` set new \<longrightarrow> hop_record r' k = hop_record r k)"
proof (induction m \<equiv> "nat (max_hop C + 1 - hop)" arbitrary: r valid num frontier explored hop)
  case 0
  then have "\<not> (int (length valid) < max_subs_ratio C \<and> hop \<le> max_hop C)" by simp
  from bfs_stop [OF this] "0.prems" have "r' = r" "valid' = valid" by simp_all
  then have "valid' = valid @ [] \<and>
       (\<forall>n\<in>set []. \<exists>h. hop_record r' (src, n) = Some h \<and> hop \<le> h \<and> h \<le> max_hop C) \<and>
       (\<forall>k. k \<notin> Pair src ` set [] \<longrightarrow> hop_record r' k = hop_record r k)"
    by simp
  then show ?case by blast
next
  case (Suc m)
  show ?case
  proof (cases "int (length valid) < max_subs_ratio C \<and> hop \<le> max_hop C")
    case False
    from bfs_stop [OF this] Suc.prems have "r' = r" "valid' = valid" by simp_all
    then have "valid' = valid @ [] \<and>
         (\<forall>n\<in>set []. \<exists>h. hop_record r' (src, n) = Some h \<and> hop \<le> h \<and> h \<le> max_hop C) \<and>
         (\<forall>k. k \<notin> Pair src ` set [] \<longrightarrow> hop_record r' k = hop_record r k)"
      by simp
    then show ?thesis by blast
  next
    case True
    obtain r1 valid1 num1 cur1 explored1 where
      sf: "scan_frontier E C src hop frontier (r, valid, num, [], explored) =
             (r1, valid1, num1, cur1, explored1)"
      by (metis prod_cases5)
    from bfs_step [OF True sf] Suc.prems have
      b: "bfs E C src (r1, valid1, num1,
          set_to_list E (remdups (filter (\<lambda>e. e \<notin> set explored1) cur1)), explored1, hop + 1) =
         (r', valid')"
      by simp
    from Suc.hyps(2) have "m = nat (max_hop C + 1 - (hop + 1))" by simp
    from Suc.hyps(1) [OF this b] obtain new2 where
      a1: "valid' = valid1 @ new2"
      and a2: "\<forall>n\<in>set new2. \<exists>h. hop_record r' (src, n) = Some h \<and> hop + 1 \<le> h \<and> h \<le> max_hop C"
      and a3: "\<forall>k. k \<notin> Pair src ` set new2 \<longrightarrow> hop_record r' k = hop_record r1 k"
      by blast
    from scan_frontier_hops [OF sf] obtain new1 where
      b1: "valid1 = valid @ new1"
      and b2: "\<forall>n\<in>set new1. hop_record r1 (src, n) = Some hop"
      and b3: "\<forall>k. k \<notin> Pair src ` set new1 \<longrightarrow> hop_record r1 k = hop_record r k"
      by blast
    have "valid' = valid @ (new1 @ new2)" using a1 b1 by simp
    moreover have "\<forall>n\<in>set (new1 @ new2).
        \<exists>h. hop_record r' (src, n) = Some h \<and> hop \<le> h \<and> h \<le> max_hop C"
    proof
      fix n assume n: "n \<in> set (new1 @ new2)"
      show "\<exists>h. hop_record r' (src, n) = Some h \<and> hop \<le> h \<and> h \<le> max_hop C"
      proof (cases "n \<in> set new2")
        case True
        with a2 obtain h where "hop_record r' (src, n) = Some h" "hop + 1 \<le> h" "h \<le> max_hop C"
          by blast
        then show ?thesis by simp
      next
        case False
        then have "(src, n) \<notin> Pair src ` set new2" by auto
        with a3 have "hop_record r' (src, n) = hop_record r1 (src, n)" by blast
        moreover from False n have "n \<in> set new1" by simp
        ultimately have "hop_record r' (src, n) = Some hop" using b2 by simp
        with True show ?thesis by simp
      qed
    qed
    moreover have "\<forall>k. k \<notin> Pair src ` set (new1 @ new2) \<longrightarrow> hop_record r' k = hop_record r k"
    proof (intro allI impI)
      fix k assume "k \<notin> Pair src ` set (new1 @ new2)"
      then have "k \<notin> Pair src ` set new1" and "k \<notin> Pair src ` set new2" by auto
      with a3 b3 have "hop_record r' k = hop_record r1 k" and "hop_record r1 k = hop_record r k"
        by blast+
      then show "hop_record r' k = hop_record r k" by simp
    qed
    ultimately show ?thesis by blast
  qed
qed

lemma subs_from_an_equiv_frame:
  assumes "subs_from_an_equiv E C src tgt r = Inr (subs, r')"
  shows "sub_pairs r' = sub_pairs r" and "deleted_tgts r' = deleted_tgts r"
proof -
  from assms obtain tgt_ent rest valid where
    "tgt_owl_search E (unfold_iri E tgt) = tgt_ent # rest"
    and b: "bfs E C src (r, [], 0, [tgt_ent], [], 1) = (r', valid)"
    by (auto simp: subs_from_an_equiv_def split: list.splits prod.splits)
  from bfs_frame [OF b] show "sub_pairs r' = sub_pairs r" and "deleted_tgts r' = deleted_tgts r"
    by simp_all
qed

text \<open>
  Claim C7. Every hop distance that \<open>subs_from_an_equiv\<close> stores lies between \<open>1\<close>
  and \<open>max_hop\<close>: when the call returns the pairs \<open>subs\<close>, every returned pair has a
  recorded distance in that range, and the entry of every other key of \<open>hop_record\<close> is
  the one it had before the call.
\<close>

theorem hop_distance_within_bounds:
  assumes "subs_from_an_equiv E C src tgt r = Inr (subs, r')"
  shows "(\<forall>p\<in>set subs. \<exists>h. hop_record r' p = Some h \<and> 1 \<le> h \<and> h \<le> max_hop C) \<and>
         (\<forall>k. k \<notin> set subs \<longrightarrow> hop_record r' k = hop_record r k)"
proof -
  from assms obtain tgt_ent rest valid where
    "tgt_owl_search E (unfold_iri E tgt) = tgt_ent # rest"
    and b: "bfs E C src (r, [], 0, [tgt_ent], [], 1) = (r', valid)"
    and s: "subs = uniqify (map (Pair src) valid)"
    by (auto simp: subs_from_an_equiv_def split: list.splits prod.splits)
  from bfs_hops [OF b] obtain new where
    "valid = [] @ new"
    and h: "\<forall>n\<in>set new. \<exists>h. hop_record r' (src, n) = Some h \<and> 1 \<le> h \<and> h \<le> max_hop C"
    and k: "\<forall>k. k \<notin> Pair src ` set new \<longrightarrow> hop_record r' k = hop_record r k"
    by blast
  then have "set subs = Pair src ` set valid" and "new = valid"
    using s by (simp_all add: uniqify_set)
  with h k show ?thesis by auto
qed

theorem hop_distance_within_bounds_witness:
  "subs_from_an_equiv tree_env tree_config ''A'' ''B'' renew_subs =
     Inr (fst (projr tree_search), snd (projr tree_search)) \<and>
   (''A'', ''H'') \<in> set (fst (projr tree_search)) \<and>
   (\<exists>h. hop_record (snd (projr tree_search)) (''A'', ''H'') = Some h \<and> 1 \<le> h \<and> h \<le> 3) \<and>
   hop_record (snd (projr tree_search)) (''A'', ''B'') = hop_record renew_subs (''A'', ''B'')"
proof -
  have h: "subs_from_an_equiv tree_env tree_config ''A'' ''B'' renew_subs =
             Inr (fst (projr tree_search), snd (projr tree_search))"
    unfolding tree_search_def by (simp add: example_defs run_defs)
  have m: "(''A'', ''H'') \<in> set (fst (projr tree_search))"
    and n: "(''A'', ''B'') \<notin> set (fst (projr tree_search))"
    unfolding tree_search_def by (simp_all add: example_defs run_defs)
  have mh: "max_hop tree_config = 3" by (simp add: example_defs)
  note t = hop_distance_within_bounds [OF h]
  from t m have "\<exists>h. hop_record (snd (projr tree_search)) (''A'', ''H'') = Some h \<and> 1 \<le> h \<and>
      h \<le> max_hop tree_config"
    by blast
  then have e: "\<exists>h. hop_record (snd (projr tree_search)) (''A'', ''H'') = Some h \<and> 1 \<le> h \<and> h \<le> 3"
    by (simp only: mh)
  from t n
  have k: "hop_record (snd (projr tree_search)) (''A'', ''B'') = hop_record renew_subs (''A'', ''B'')"
    by blast
  show ?thesis by (intro conjI h m e k)
qed

text \<open>
  Claim C10. With \<open>max_hop < 1\<close> or \<open>max_subs_ratio \<le> 0\<close> the loop body never runs:
  for a target that resolves, \<open>subs_from_an_equiv\<close> returns the empty list and the record
  (hop record, delete status, construct status and pairs) is unchanged.
\<close>

theorem degenerate_limits_no_search:
  assumes "max_hop C < 1 \<or> max_subs_ratio C \<le> 0"
    and "tgt_owl_search E (unfold_iri E tgt) \<noteq> []"
  shows "subs_from_an_equiv E C src tgt r = Inr ([], r)"
proof -
  from assms(2) obtain tgt_ent rest where t: "tgt_owl_search E (unfold_iri E tgt) = tgt_ent # rest"
    by (cases "tgt_owl_search E (unfold_iri E tgt)") auto
  from assms(1) have "\<not> (int (length ([]::string list)) < max_subs_ratio C \<and> 1 \<le> max_hop C)"
    by auto
  then have "bfs E C src (r, [], 0, [tgt_ent], [], 1) = (r, [])"
    by (rule bfs_stop)
  with t show ?thesis
    by (simp add: subs_from_an_equiv_def uniqify_def)
qed

theorem degenerate_limits_no_search_witness:
  "(max_hop no_hop_config < 1 \<or> max_subs_ratio no_hop_config \<le> 0) \<and>
   tgt_owl_search tree_env (unfold_iri tree_env ''B'') \<noteq> [] \<and>
   subs_from_an_equiv tree_env no_hop_config ''A'' ''B'' renew_subs = Inr ([], renew_subs)"
proof -
  have a: "max_hop no_hop_config < 1 \<or> max_subs_ratio no_hop_config \<le> 0"
    by (simp add: example_defs)
  have b: "tgt_owl_search tree_env (unfold_iri tree_env ''B'') \<noteq> []"
    by (simp add: example_defs)
  show ?thesis by (intro conjI a b degenerate_limits_no_search [OF a b])
qed

lemma deleted_tgts_renew: "deleted_tgts renew_subs = {}"
  by (simp add: deleted_tgts_def renew_subs_def)

lemma deleted_tgts_mark: "deleted_tgts (r\<lparr>delete_status := (delete_status r)(t \<mapsto> True)\<rparr>) = insert t (deleted_tgts r)"
  by (auto simp: deleted_tgts_def)

lemma static_mark_deleted:
  "static_mark E C ps r = Inr r' \<Longrightarrow>
   deleted_tgts r' = deleted_tgts r \<union> {t \<in> snd ` set ps. has_neighbour E C t}"
proof (induction ps arbitrary: r)
  case Nil
  then show ?case by simp
next
  case (Cons p ps)
  obtain s t where p: "p = (s, t)" by (cases p)
  from Cons.prems p obtain e es where
    e: "tgt_owl_search E (unfold_iri E t) = e # es"
    by (cases "tgt_owl_search E (unfold_iri E t)") auto
  let ?r1 = "if move C e \<noteq> [] then r\<lparr>delete_status := (delete_status r)(t \<mapsto> True)\<rparr> else r"
  from Cons.prems p e have "static_mark E C ps ?r1 = Inr r'" by simp
  from Cons.IH [OF this]
  have "deleted_tgts r' = deleted_tgts ?r1 \<union> {t \<in> snd ` set ps. has_neighbour E C t}" .
  moreover have "deleted_tgts ?r1 = deleted_tgts r \<union> (if has_neighbour E C t then {t} else {})"
    using e by (simp add: has_neighbour_def deleted_tgts_mark)
  ultimately show ?case using p by auto
qed

lemma static_collect_deleted:
  "static_collect E C ps r = Inr r' \<Longrightarrow> deleted_tgts r' = deleted_tgts r"
proof (induction ps arbitrary: r)
  case Nil
  then show ?case by simp
next
  case (Cons p ps)
  obtain s t where p: "p = (s, t)" by (cases p)
  from Cons.prems p obtain subs r1 where
    sb: "subs_from_an_equiv E C s t r = Inr (subs, r1)"
    and rest: "static_collect E C ps (r1\<lparr>sub_pairs := sub_pairs r1 @ subs\<rparr>) = Inr r'"
    by (auto split: sum.splits)
  from Cons.IH [OF rest] subs_from_an_equiv_frame(2) [OF sb] show ?case by simp
qed

text \<open>
  Claim C3. After \<open>static_subs_construct\<close> with the deletion flag set, a class is
  marked deleted exactly when it is the target of an equivalence pair and the probe finds a
  neighbour in the search direction; the marks are those of the record that the pre-pass
  returns, and no per-equivalence search changes the set of marked classes.
\<close>

theorem static_deletion_consistency:
  assumes "is_delete_equiv_tgt C" and "static_subs_construct E C = Inr r"
  shows "(\<forall>t. t \<in> deleted_tgts r \<longleftrightarrow> t \<in> snd ` set (equiv_pairs C) \<and> has_neighbour E C t) \<and>
         (\<exists>r1. static_prepass E C = Inr r1 \<and> deleted_tgts r1 = deleted_tgts r) \<and>
         (\<forall>src tgt r0 subs r0'. subs_from_an_equiv E C src tgt r0 = Inr (subs, r0') \<longrightarrow>
              deleted_tgts r0' = deleted_tgts r0)"
proof -
  from assms(2) obtain r1 r2 where
    pre: "static_prepass E C = Inr r1"
    and col: "static_collect E C (equiv_pairs C) r1 = Inr r2"
    and r: "r = r2\<lparr>sub_pairs := uniqify (sub_pairs r2)\<rparr>"
    by (auto simp: static_subs_construct_def split: sum.splits)
  from pre assms(1) have "static_mark E C (equiv_pairs C) renew_subs = Inr r1"
    by (simp add: static_prepass_def)
  from static_mark_deleted [OF this]
  have d1: "deleted_tgts r1 = {t \<in> snd ` set (equiv_pairs C). has_neighbour E C t}"
    by (simp add: deleted_tgts_renew)
  from static_collect_deleted [OF col] r have d2: "deleted_tgts r = deleted_tgts r1" by simp
  have "\<forall>t. t \<in> deleted_tgts r \<longleftrightarrow> t \<in> snd ` set (equiv_pairs C) \<and> has_neighbour E C t"
    using d1 d2 by simp
  moreover have "\<exists>r1. static_prepass E C = Inr r1 \<and> deleted_tgts r1 = deleted_tgts r"
    using pre d2 by simp
  moreover have "\<forall>src tgt r0 subs r0'. subs_from_an_equiv E C src tgt r0 = Inr (subs, r0') \<longrightarrow>
              deleted_tgts r0' = deleted_tgts r0"
    using subs_from_an_equiv_frame(2) by blast
  ultimately show ?thesis by blast
qed

theorem static_deletion_consistency_witness:
  "is_delete_equiv_tgt diamond_config \<and>
   static_subs_construct diamond_env diamond_config = Inr (projr diamond_static) \<and>
   ''B'' \<in> deleted_tgts (projr diamond_static) \<and>
   ''C'' \<in> deleted_tgts (projr diamond_static) \<and>
   ''D'' \<notin> deleted_tgts (projr diamond_static)"
proof -
  have a: "is_delete_equiv_tgt diamond_config" by (simp add: example_defs)
  have b: "static_subs_construct diamond_env diamond_config = Inr (projr diamond_static)"
    unfolding diamond_static_def by (simp add: example_defs run_defs)
  have c: "''B'' \<in> snd ` set (equiv_pairs diamond_config) \<and> has_neighbour diamond_env diamond_config ''B''"
    "''C'' \<in> snd ` set (equiv_pairs diamond_config) \<and> has_neighbour diamond_env diamond_config ''C''"
    "\<not> (''D'' \<in> snd ` set (equiv_pairs diamond_config) \<and> has_neighbour diamond_env diamond_config ''D'')"
    by (simp_all add: example_defs has_neighbour_def)
  from static_deletion_consistency [OF a b]
  have t: "\<forall>t. t \<in> deleted_tgts (projr diamond_static) \<longleftrightarrow>
             t \<in> snd ` set (equiv_pairs diamond_config) \<and> has_neighbour diamond_env diamond_config t"
    by (rule conjunct1)
  from t c(1) have d1: "''B'' \<in> deleted_tgts (projr diamond_static)" by blast
  from t c(2) have d2: "''C'' \<in> deleted_tgts (projr diamond_static)" by blast
  from t c(3) have d3: "''D'' \<notin> deleted_tgts (projr diamond_static)" by blast
  show ?thesis by (intro conjI a b d1 d2 d3)
qed

text \<open>
  Claim C6. The list of pairs that \<open>static_subs_construct\<close> and
  \<open>online_subs_construct\<close> leave in \<open>sub_pairs\<close> has no repeated pair.
\<close>

theorem no_duplicate_output_pairs:
  "(static_subs_construct E C = Inr r \<longrightarrow> distinct (sub_pairs r)) \<and>
   (online_subs_construct E C = Inr r \<longrightarrow> distinct (sub_pairs r))"
  by (auto simp: static_subs_construct_def online_subs_construct_def uniqify_distinct
           split: sum.splits)

theorem no_duplicate_output_pairs_witness:
  "static_subs_construct diamond_env diamond_config = Inr (projr diamond_static) \<and>
   distinct (sub_pairs (projr diamond_static)) \<and>
   online_subs_construct diamond_env diamond_config = Inr (projr diamond_online) \<and>
   distinct (sub_pairs (projr diamond_online))"
proof -
  have a: "static_subs_construct diamond_env diamond_config = Inr (projr diamond_static)"
    unfolding diamond_static_def by (simp add: example_defs run_defs)
  have b: "online_subs_construct diamond_env diamond_config = Inr (projr diamond_online)"
    unfolding diamond_online_def by (simp add: example_defs run_defs)
  from no_duplicate_output_pairs [of diamond_env diamond_config "projr diamond_static"]
  have "static_subs_construct diamond_env diamond_config = Inr (projr diamond_static) \<longrightarrow>
        distinct (sub_pairs (projr diamond_static))"
    by (rule conjunct1)
  then have c: "distinct (sub_pairs (projr diamond_static))" using a by (rule mp)
  from no_duplicate_output_pairs [of diamond_env diamond_config "projr diamond_online"]
  have "online_subs_construct diamond_env diamond_config = Inr (projr diamond_online) \<longrightarrow>
        distinct (sub_pairs (projr diamond_online))"
    by (rule conjunct2)
  then have d: "distinct (sub_pairs (projr diamond_online))" using b by (rule mp)
  show ?thesis by (intro conjI a b c d)
qed

text \<open>
  Claim C8. With a relation other than \<open><\<close> and \<open>>\<close> the constructor fails with the
  configuration error without having read the equivalence store and without a record; with
  either of the two symbols it reads the store and does not fail with this error.
\<close>

theorem unknown_relation_rejected:
  "(rel_arg \<noteq> ''<'' \<and> rel_arg \<noteq> ''>'' \<longrightarrow>
      init E read_tsv pick rel_arg path ratio is_delete hop_limit =
        ([], Inl (ValueError (''Unknown subsumption relation: '' @ rel_arg)))) \<and>
   (rel_arg = ''<'' \<or> rel_arg = ''>'' \<longrightarrow>
      fst (init E read_tsv pick rel_arg path ratio is_delete hop_limit) = [ReadTsv path] \<and>
      (\<forall>m. snd (init E read_tsv pick rel_arg path ratio is_delete hop_limit) \<noteq> Inl (ValueError m)))"
  by (auto simp: init_def init_record_def Let_def split: option.splits)

theorem unknown_relation_rejected_witness:
  "init tree_env (\<lambda>path. Some [(''A'', ''B'')]) 0 ''='' ''equiv.tsv'' 1 True 3 =
     ([], Inl (ValueError ''Unknown subsumption relation: ='')) \<and>
   fst (init tree_env (\<lambda>path. Some [(''A'', ''B'')]) 0 ''<'' ''equiv.tsv'' 1 True 3) =
     [ReadTsv ''equiv.tsv''] \<and>
   snd (init tree_env (\<lambda>path. Some [(''A'', ''B'')]) 0 ''<'' ''equiv.tsv'' 1 True 3) \<noteq>
     Inl (ValueError ''Unknown subsumption relation: <'')"
  using unknown_relation_rejected
          [of "''=''" tree_env "\<lambda>path. Some [(''A'', ''B'')]" 0 "''equiv.tsv''" 1 True 3]
        unknown_relation_rejected
          [of "''<''" tree_env "\<lambda>path. Some [(''A'', ''B'')]" 0 "''equiv.tsv''" 1 True 3]
  by simp

lemma preserved_loop_eq:
  "preserved_loop E ks (acc, r) =
     (acc @ map (unfold_iri E) (filter (\<lambda>k. delete_status r k \<noteq> Some True) ks),
      r\<lparr>delete_status :=
          (\<lambda>k. if k \<in> set ks \<and> delete_status r k = None then Some False else delete_status r k)\<rparr>)"
proof (induction ks arbitrary: acc r)
  case Nil
  then show ?case by simp
next
  case (Cons k ks)
  show ?case
  proof (cases "delete_status r k")
    case None
    let ?r1 = "r\<lparr>delete_status := (delete_status r)(k \<mapsto> False)\<rparr>"
    have f: "filter (\<lambda>k'. delete_status ?r1 k' \<noteq> Some True) ks =
             filter (\<lambda>k'. delete_status r k' \<noteq> Some True) ks"
      using None by (intro filter_cong) auto
    have m: "(\<lambda>k'. if k' \<in> set ks \<and> delete_status ?r1 k' = None then Some False
                   else delete_status ?r1 k') =
             (\<lambda>k'. if k' \<in> set (k # ks) \<and> delete_status r k' = None then Some False
                   else delete_status r k')"
      using None by (auto simp: fun_eq_iff)
    have "preserved_loop E (k # ks) (acc, r) =
            preserved_loop E ks (acc @ [unfold_iri E k], ?r1)"
      using None by (simp add: dd_get_def)
    also have "\<dots> = ((acc @ [unfold_iri E k]) @
                 map (unfold_iri E) (filter (\<lambda>k'. delete_status ?r1 k' \<noteq> Some True) ks),
               ?r1\<lparr>delete_status :=
                 (\<lambda>k'. if k' \<in> set ks \<and> delete_status ?r1 k' = None then Some False
                        else delete_status ?r1 k')\<rparr>)"
      by (rule Cons.IH)
    finally have e: "preserved_loop E (k # ks) (acc, r) =
               ((acc @ [unfold_iri E k]) @
                 map (unfold_iri E) (filter (\<lambda>k'. delete_status ?r1 k' \<noteq> Some True) ks),
               ?r1\<lparr>delete_status :=
                 (\<lambda>k'. if k' \<in> set ks \<and> delete_status ?r1 k' = None then Some False
                        else delete_status ?r1 k')\<rparr>)" .
    show ?thesis unfolding e f m using None by simp
  next
    case (Some v)
    have m: "(\<lambda>k'. if k' \<in> set ks \<and> delete_status r k' = None then Some False
                   else delete_status r k') =
             (\<lambda>k'. if k' \<in> set (k # ks) \<and> delete_status r k' = None then Some False
                   else delete_status r k')"
      using Some by (auto simp: fun_eq_iff)
    have "preserved_loop E (k # ks) (acc, r) =
            preserved_loop E ks (if \<not> v then acc @ [unfold_iri E k] else acc, r)"
      using Some by (simp add: dd_get_def)
    also have "\<dots> = ((if \<not> v then acc @ [unfold_iri E k] else acc) @
                 map (unfold_iri E) (filter (\<lambda>k'. delete_status r k' \<noteq> Some True) ks),
               r\<lparr>delete_status :=
                 (\<lambda>k'. if k' \<in> set ks \<and> delete_status r k' = None then Some False
                        else delete_status r k')\<rparr>)"
      by (rule Cons.IH)
    finally have e: "preserved_loop E (k # ks) (acc, r) =
               ((if \<not> v then acc @ [unfold_iri E k] else acc) @
                 map (unfold_iri E) (filter (\<lambda>k'. delete_status r k' \<noteq> Some True) ks),
               r\<lparr>delete_status :=
                 (\<lambda>k'. if k' \<in> set ks \<and> delete_status r k' = None then Some False
                        else delete_status r k')\<rparr>)" .
    show ?thesis unfolding e m using Some by simp
  qed
qed

text \<open>
  Claim C9. \<open>preserved_tgt_iris\<close> changes the delete-status map: every name of the
  target class index that was not a key becomes a key with value \<open>False\<close>; no existing
  entry changes, so the set of classes marked deleted is the same.
\<close>

theorem preserved_query_inserts_defaults:
  "snd (preserved_tgt_iris E r) =
     r\<lparr>delete_status :=
         (\<lambda>k. if k \<in> set (tgt_class2idx E) \<and> delete_status r k = None then Some False
              else delete_status r k)\<rparr> \<and>
   deleted_tgts (snd (preserved_tgt_iris E r)) = deleted_tgts r"
  by (auto simp: preserved_tgt_iris_def preserved_loop_eq deleted_tgts_def)

theorem preserved_query_inserts_defaults_witness:
  "delete_status renew_subs ''B'' = None \<and>
   delete_status (snd (preserved_tgt_iris tree_env renew_subs)) ''B'' = Some False \<and>
   deleted_tgts (snd (preserved_tgt_iris tree_env renew_subs)) = deleted_tgts renew_subs"
proof -
  have a: "delete_status renew_subs ''B'' = None" by (simp add: renew_subs_def)
  have b: "''B'' \<in> set (tgt_class2idx tree_env)" by (simp add: example_defs)
  note t = preserved_query_inserts_defaults [of tree_env renew_subs]
  from t have "snd (preserved_tgt_iris tree_env renew_subs) =
     renew_subs\<lparr>delete_status :=
         (\<lambda>k. if k \<in> set (tgt_class2idx tree_env) \<and> delete_status renew_subs k = None
              then Some False else delete_status renew_subs k)\<rparr>"
    by (rule conjunct1)
  then have c: "delete_status (snd (preserved_tgt_iris tree_env renew_subs)) ''B'' = Some False"
    using a b by simp
  from t have d: "deleted_tgts (snd (preserved_tgt_iris tree_env renew_subs)) =
     deleted_tgts renew_subs"
    by (rule conjunct2)
  show ?thesis by (intro conjI a c d)
qed

lemma constructed_check_fst:
  "fst (constructed_check C t r) \<longleftrightarrow> is_delete_equiv_tgt C \<and> t \<in> constructed_tgts r"
  by (auto simp: constructed_check_def constructed_tgts_def dd_get_def split: option.splits)

lemma constructed_check_skip:
  "fst (constructed_check C t r) \<Longrightarrow> snd (constructed_check C t r) = r"
  by (auto simp: constructed_check_def dd_get_def split: option.splits if_splits)

lemma constructed_check_frame:
  "deleted_tgts (snd (constructed_check C t r)) = deleted_tgts r"
  "sub_pairs (snd (constructed_check C t r)) = sub_pairs r"
  by (auto simp: constructed_check_def deleted_tgts_def dd_get_def split: option.splits)

lemma online_step_skip:
  "fst (constructed_check C (snd p) r) \<Longrightarrow> online_step E C p r = Inr r"
  using constructed_check_skip [of C "snd p" r]
  by (cases p, cases "constructed_check C (snd p) r") (simp add: online_step_def)

lemma online_step_run:
  assumes "\<not> fst (constructed_check C (snd p) r)"
  shows "online_step E C p r =
     (case subs_from_an_equiv E C (fst p) (snd p) (snd (constructed_check C (snd p) r)) of
        Inl e \<Rightarrow> Inl e
      | Inr (cur_subs, r1) \<Rightarrow>
          Inr ((if is_delete_equiv_tgt C \<and> cur_subs \<noteq> []
                then r1\<lparr>delete_status := (delete_status r1)(snd p \<mapsto> True)\<rparr> else r1)
               \<lparr>sub_pairs := sub_pairs r1 @ cur_subs\<rparr>))"
  using assms
  by (cases p, cases "constructed_check C (snd p) r")
     (auto simp: online_step_def Let_def split: sum.splits prod.splits)

lemma online_step_deleted:
  assumes "online_step E C p r = Inr r'"
  shows "deleted_tgts r' = deleted_tgts r \<union>
           (if is_delete_equiv_tgt C \<and> snd p \<notin> constructed_tgts r \<and> yields_subs E C p r
            then {snd p} else {})"
proof (cases "fst (constructed_check C (snd p) r)")
  case True
  with online_step_skip [OF True, of E] assms have "r' = r" by simp
  moreover from True have "snd p \<in> constructed_tgts r" by (simp add: constructed_check_fst)
  ultimately show ?thesis by simp
next
  case False
  let ?r0 = "snd (constructed_check C (snd p) r)"
  from assms online_step_run [OF False, of E] obtain cur_subs r1 where
    sb: "subs_from_an_equiv E C (fst p) (snd p) ?r0 = Inr (cur_subs, r1)"
    and r': "r' = (if is_delete_equiv_tgt C \<and> cur_subs \<noteq> []
                then r1\<lparr>delete_status := (delete_status r1)(snd p \<mapsto> True)\<rparr> else r1)
               \<lparr>sub_pairs := sub_pairs r1 @ cur_subs\<rparr>"
    by (auto split: sum.splits)
  from subs_from_an_equiv_frame(2) [OF sb] have d1: "deleted_tgts r1 = deleted_tgts r"
    by (simp add: constructed_check_frame)
  from sb have y: "yields_subs E C p r \<longleftrightarrow> cur_subs \<noteq> []"
    by (simp add: yields_subs_def)
  from False have nc: "is_delete_equiv_tgt C \<Longrightarrow> snd p \<notin> constructed_tgts r"
    by (simp add: constructed_check_fst)
  show ?thesis
  proof (cases "is_delete_equiv_tgt C \<and> cur_subs \<noteq> []")
    case True
    with r' have "deleted_tgts r' = insert (snd p) (deleted_tgts r1)"
      by (simp add: deleted_tgts_mark)
    with True d1 y nc show ?thesis by simp
  next
    case False
    with r' have "deleted_tgts r' = deleted_tgts r1" by auto
    with False d1 y show ?thesis by auto
  qed
qed

lemma online_loop_bounds:
  "online_loop E C ps r = Inr r' \<Longrightarrow>
   deleted_tgts r \<subseteq> deleted_tgts r' \<and> deleted_tgts r' \<subseteq> deleted_tgts r \<union> snd ` set ps"
proof (induction ps arbitrary: r)
  case Nil
  then show ?case by simp
next
  case (Cons p ps)
  from Cons.prems obtain rm where
    st: "online_step E C p r = Inr rm" and lp: "online_loop E C ps rm = Inr r'"
    by (auto split: sum.splits)
  from online_step_deleted [OF st]
  have "deleted_tgts r \<subseteq> deleted_tgts rm" and "deleted_tgts rm \<subseteq> deleted_tgts r \<union> {snd p}"
    by (auto split: if_splits)
  with Cons.IH [OF lp] show ?case by auto
qed

lemma online_loop_deleted:
  assumes "is_delete_equiv_tgt C"
  shows "online_loop E C ps r = Inr r' \<Longrightarrow>
     (t \<in> deleted_tgts r' \<longleftrightarrow>
        t \<in> deleted_tgts r \<or>
        (\<exists>pre src post r0. ps = pre @ (src, t) # post \<and> online_loop E C pre r = Inr r0 \<and>
            t \<notin> constructed_tgts r0 \<and> yields_subs E C (src, t) r0))"
proof (induction ps arbitrary: r)
  case Nil
  then show ?case by simp
next
  case (Cons p ps)
  from Cons.prems obtain rm where
    st: "online_step E C p r = Inr rm" and lp: "online_loop E C ps rm = Inr r'"
    by (auto split: sum.splits)
  let ?now = "snd p = t \<and> t \<notin> constructed_tgts r \<and> yields_subs E C p r"
  let ?later = "\<exists>pre src post r0. ps = pre @ (src, t) # post \<and> online_loop E C pre rm = Inr r0 \<and>
            t \<notin> constructed_tgts r0 \<and> yields_subs E C (src, t) r0"
  let ?any = "\<exists>pre src post r0. p # ps = pre @ (src, t) # post \<and> online_loop E C pre r = Inr r0 \<and>
            t \<notin> constructed_tgts r0 \<and> yields_subs E C (src, t) r0"
  from online_step_deleted [OF st] assms
  have s1: "t \<in> deleted_tgts rm \<longleftrightarrow> t \<in> deleted_tgts r \<or> ?now"
    by auto
  from Cons.IH [OF lp]
  have s2: "t \<in> deleted_tgts r' \<longleftrightarrow> t \<in> deleted_tgts rm \<or> ?later" .
  have s3: "?any \<longleftrightarrow> ?now \<or> ?later"
  proof
    assume ?any
    then obtain pre src post r0 where
      eq: "p # ps = pre @ (src, t) # post" and l0: "online_loop E C pre r = Inr r0"
      and c0: "t \<notin> constructed_tgts r0" and y0: "yields_subs E C (src, t) r0"
      by blast
    show "?now \<or> ?later"
    proof (cases pre)
      case Nil
      with eq l0 have "p = (src, t)" and "r0 = r" by simp_all
      with c0 y0 show ?thesis by simp
    next
      case (Cons a pre')
      with eq have "a = p" and ps: "ps = pre' @ (src, t) # post" by simp_all
      with l0 Cons st have "online_loop E C pre' rm = Inr r0" by simp
      with ps c0 y0 show ?thesis by blast
    qed
  next
    assume "?now \<or> ?later"
    then show ?any
    proof
      assume n: ?now
      then have "p # ps = [] @ (fst p, t) # ps" by (cases p) simp
      moreover have "online_loop E C [] r = Inr r" by simp
      moreover from n have "yields_subs E C (fst p, t) r" by (cases p) simp
      ultimately show ?any using n by blast
    next
      assume ?later
      then obtain pre src post r0 where
        ps: "ps = pre @ (src, t) # post" and l0: "online_loop E C pre rm = Inr r0"
        and c0: "t \<notin> constructed_tgts r0" and y0: "yields_subs E C (src, t) r0"
        by blast
      from ps have "p # ps = (p # pre) @ (src, t) # post" by simp
      moreover from st l0 have "online_loop E C (p # pre) r = Inr r0" by simp
      ultimately show ?any using c0 y0 by blast
    qed
  qed
  from s1 s2 s3 show ?case by blast
qed

text \<open>
  Claim C4. In \<open>online_subs_construct\<close> with the deletion flag set: the skip test of a
  pair holds exactly when the pair's own target is marked constructed, and a skipped pair
  leaves the record as it is; a pair that is not skipped is searched, its pairs are appended
  and its target is marked deleted right after the search exactly when the search returned
  at least one pair; marks persist through all later rounds; and at the end a class is
  marked deleted exactly when some pair with that target was reached with the target not
  marked constructed and its search returned at least one pair.
\<close>

theorem online_deletion_consistency:
  assumes "is_delete_equiv_tgt C" and "online_subs_construct E C = Inr r"
  shows "(\<forall>p r0. fst (constructed_check C (snd p) r0) \<longleftrightarrow> snd p \<in> constructed_tgts r0) \<and>
         (\<forall>p r0. snd p \<in> constructed_tgts r0 \<longrightarrow> online_step E C p r0 = Inr r0) \<and>
         (\<forall>p r0 subs r1. snd p \<notin> constructed_tgts r0 \<and>
              subs_from_an_equiv E C (fst p) (snd p) (snd (constructed_check C (snd p) r0)) =
                Inr (subs, r1) \<longrightarrow>
              (\<exists>r2. online_step E C p r0 = Inr r2 \<and> sub_pairs r2 = sub_pairs r0 @ subs \<and>
                    deleted_tgts r2 = deleted_tgts r0 \<union> (if subs \<noteq> [] then {snd p} else {}))) \<and>
         (\<forall>ps r0 r1. online_loop E C ps r0 = Inr r1 \<longrightarrow> deleted_tgts r0 \<subseteq> deleted_tgts r1) \<and>
         (\<forall>t. t \<in> deleted_tgts r \<longleftrightarrow>
              (\<exists>pre src post r0. equiv_pairs C = pre @ (src, t) # post \<and>
                  online_loop E C pre renew_subs = Inr r0 \<and>
                  t \<notin> constructed_tgts r0 \<and> yields_subs E C (src, t) r0))"
proof -
  have a: "\<forall>p r0. fst (constructed_check C (snd p) r0) \<longleftrightarrow> snd p \<in> constructed_tgts r0"
    using assms(1) by (simp add: constructed_check_fst)
  have b: "\<forall>p r0. snd p \<in> constructed_tgts r0 \<longrightarrow> online_step E C p r0 = Inr r0"
    using a online_step_skip by blast
  have c: "\<forall>p r0 subs r1. snd p \<notin> constructed_tgts r0 \<and>
              subs_from_an_equiv E C (fst p) (snd p) (snd (constructed_check C (snd p) r0)) =
                Inr (subs, r1) \<longrightarrow>
              (\<exists>r2. online_step E C p r0 = Inr r2 \<and> sub_pairs r2 = sub_pairs r0 @ subs \<and>
                    deleted_tgts r2 = deleted_tgts r0 \<union> (if subs \<noteq> [] then {snd p} else {}))"
  proof (intro allI impI)
    fix p r0 subs r1
    assume h: "snd p \<notin> constructed_tgts r0 \<and>
       subs_from_an_equiv E C (fst p) (snd p) (snd (constructed_check C (snd p) r0)) = Inr (subs, r1)"
    then have ns: "\<not> fst (constructed_check C (snd p) r0)" using a by blast
    let ?r2 = "(if is_delete_equiv_tgt C \<and> subs \<noteq> []
                then r1\<lparr>delete_status := (delete_status r1)(snd p \<mapsto> True)\<rparr> else r1)
               \<lparr>sub_pairs := sub_pairs r1 @ subs\<rparr>"
    from online_step_run [OF ns, of E] h have st: "online_step E C p r0 = Inr ?r2" by simp
    from h have sb: "subs_from_an_equiv E C (fst p) (snd p)
                       (snd (constructed_check C (snd p) r0)) = Inr (subs, r1)"
      by (rule conjunct2)
    from subs_from_an_equiv_frame(1) [OF sb]
    have "sub_pairs r1 = sub_pairs r0" by (simp add: constructed_check_frame)
    then have sp: "sub_pairs ?r2 = sub_pairs r0 @ subs" by simp
    from h have "yields_subs E C p r0 \<longleftrightarrow> subs \<noteq> []" by (simp add: yields_subs_def)
    with online_step_deleted [OF st] assms(1) h
    have "deleted_tgts ?r2 = deleted_tgts r0 \<union> (if subs \<noteq> [] then {snd p} else {})"
      by simp
    with st sp show "\<exists>r2. online_step E C p r0 = Inr r2 \<and> sub_pairs r2 = sub_pairs r0 @ subs \<and>
                    deleted_tgts r2 = deleted_tgts r0 \<union> (if subs \<noteq> [] then {snd p} else {})"
      by blast
  qed
  have d: "\<forall>ps r0 r1. online_loop E C ps r0 = Inr r1 \<longrightarrow> deleted_tgts r0 \<subseteq> deleted_tgts r1"
    using online_loop_bounds by blast
  from assms(2) obtain r2 where
    lp: "online_loop E C (equiv_pairs C) renew_subs = Inr r2"
    and r: "r = r2\<lparr>sub_pairs := uniqify (sub_pairs r2)\<rparr>"
    by (auto simp: online_subs_construct_def split: sum.splits)
  have e: "\<forall>t. t \<in> deleted_tgts r \<longleftrightarrow>
              (\<exists>pre src post r0. equiv_pairs C = pre @ (src, t) # post \<and>
                  online_loop E C pre renew_subs = Inr r0 \<and>
                  t \<notin> constructed_tgts r0 \<and> yields_subs E C (src, t) r0)"
    using online_loop_deleted [OF assms(1) lp] r by (simp add: deleted_tgts_renew)
  from a b c d e show ?thesis by blast
qed

theorem online_deletion_consistency_witness:
  "is_delete_equiv_tgt diamond_config \<and>
   online_subs_construct diamond_env diamond_config = Inr (projr diamond_online) \<and>
   ''C'' \<in> constructed_tgts (projr diamond_first) \<and>
   online_step diamond_env diamond_config (''Y'', ''C'') (projr diamond_first) =
     Inr (projr diamond_first) \<and>
   ''B'' \<in> deleted_tgts (projr diamond_online)"
proof -
  have a: "is_delete_equiv_tgt diamond_config" by (simp add: example_defs)
  have b: "online_subs_construct diamond_env diamond_config = Inr (projr diamond_online)"
    unfolding diamond_online_def by (simp add: example_defs run_defs)
  have c: "''C'' \<in> constructed_tgts (projr diamond_first)"
    unfolding diamond_first_def constructed_tgts_def
    by (simp add: example_defs run_defs)
  have y: "equiv_pairs diamond_config = [] @ (''A'', ''B'') # [(''Y'', ''C''), (''X'', ''B'')] \<and>
           online_loop diamond_env diamond_config [] renew_subs = Inr renew_subs \<and>
           ''B'' \<notin> constructed_tgts renew_subs \<and>
           yields_subs diamond_env diamond_config (''A'', ''B'') renew_subs"
    unfolding constructed_tgts_def yields_subs_def
    by (simp add: example_defs run_defs)
  note t = online_deletion_consistency [OF a b]
  from t have "\<forall>p r0. snd p \<in> constructed_tgts r0 \<longrightarrow>
      online_step diamond_env diamond_config p r0 = Inr r0"
    by blast
  from this [rule_format, of "(''Y'', ''C'')" "projr diamond_first"] c
  have d: "online_step diamond_env diamond_config (''Y'', ''C'') (projr diamond_first) =
     Inr (projr diamond_first)"
    by simp
  from t have "\<forall>t. t \<in> deleted_tgts (projr diamond_online) \<longleftrightarrow>
              (\<exists>pre src post r0. equiv_pairs diamond_config = pre @ (src, t) # post \<and>
                  online_loop diamond_env diamond_config pre renew_subs = Inr r0 \<and>
                  t \<notin> constructed_tgts r0 \<and> yields_subs diamond_env diamond_config (src, t) r0)"
    by blast
  with y have e: "''B'' \<in> deleted_tgts (projr diamond_online)" by blast
  show ?thesis by (intro conjI a b c d e)
qed

lemma static_deleted_subset:
  assumes "static_subs_construct E C = Inr r"
  shows "deleted_tgts r \<subseteq> snd ` set (equiv_pairs C)"
proof -
  from assms obtain r1 r2 where
    pre: "static_prepass E C = Inr r1"
    and col: "static_collect E C (equiv_pairs C) r1 = Inr r2"
    and r: "r = r2\<lparr>sub_pairs := uniqify (sub_pairs r2)\<rparr>"
    by (auto simp: static_subs_construct_def split: sum.splits)
  have "deleted_tgts r1 \<subseteq> snd ` set (equiv_pairs C)"
  proof (cases "is_delete_equiv_tgt C")
    case True
    with pre have "static_mark E C (equiv_pairs C) renew_subs = Inr r1"
      by (simp add: static_prepass_def)
    from static_mark_deleted [OF this] show ?thesis by (auto simp: deleted_tgts_renew)
  next
    case False
    with pre have "r1 = renew_subs" by (simp add: static_prepass_def)
    then show ?thesis by (simp add: deleted_tgts_renew)
  qed
  with static_collect_deleted [OF col] r show ?thesis by simp
qed

lemma online_deleted_subset:
  assumes "online_subs_construct E C = Inr r"
  shows "deleted_tgts r \<subseteq> snd ` set (equiv_pairs C)"
proof -
  from assms obtain r2 where
    lp: "online_loop E C (equiv_pairs C) renew_subs = Inr r2"
    and r: "r = r2\<lparr>sub_pairs := uniqify (sub_pairs r2)\<rparr>"
    by (auto simp: online_subs_construct_def split: sum.splits)
  from online_loop_bounds [OF lp] r show ?thesis by (simp add: deleted_tgts_renew)
qed

lemma preserved_names:
  "fst (preserved_tgt_iris E r) =
     map (unfold_iri E) (filter (\<lambda>k. k \<notin> deleted_tgts r) (tgt_class2idx E))"
  by (simp add: preserved_tgt_iris_def preserved_loop_eq deleted_tgts_def)

text \<open>
  Claim C5. After a generation pass whose equivalence targets all belong to the target
  class index, the list returned by \<open>preserved_tgt_iris\<close> is the unfolding of a list of
  names that, together with the deleted classes, partitions the class index; where
  unfolding is injective on the class index, the returned identifiers and the unfolded
  deleted classes partition the unfolded class index.
\<close>

theorem preserved_deleted_partition:
  assumes "static_subs_construct E C = Inr r \<or> online_subs_construct E C = Inr r"
    and "snd ` set (equiv_pairs C) \<subseteq> set (tgt_class2idx E)"
  shows "(\<exists>kept. fst (preserved_tgt_iris E r) = map (unfold_iri E) kept \<and>
            set kept \<union> deleted_tgts r = set (tgt_class2idx E) \<and>
            set kept \<inter> deleted_tgts r = {}) \<and>
         (inj_on (unfold_iri E) (set (tgt_class2idx E)) \<longrightarrow>
            set (fst (preserved_tgt_iris E r)) \<union> unfold_iri E ` deleted_tgts r =
              unfold_iri E ` set (tgt_class2idx E) \<and>
            set (fst (preserved_tgt_iris E r)) \<inter> unfold_iri E ` deleted_tgts r = {})"
proof -
  let ?kept = "filter (\<lambda>k. k \<notin> deleted_tgts r) (tgt_class2idx E)"
  from assms(1) have "deleted_tgts r \<subseteq> snd ` set (equiv_pairs C)"
    using static_deleted_subset online_deleted_subset by blast
  with assms(2) have sub: "deleted_tgts r \<subseteq> set (tgt_class2idx E)" by simp
  have k1: "set ?kept \<union> deleted_tgts r = set (tgt_class2idx E)" using sub by auto
  have k2: "set ?kept \<inter> deleted_tgts r = {}" by auto
  have p: "fst (preserved_tgt_iris E r) = map (unfold_iri E) ?kept" by (rule preserved_names)
  have first: "\<exists>kept. fst (preserved_tgt_iris E r) = map (unfold_iri E) kept \<and>
            set kept \<union> deleted_tgts r = set (tgt_class2idx E) \<and>
            set kept \<inter> deleted_tgts r = {}"
    using p k1 k2 by blast
  have second: "inj_on (unfold_iri E) (set (tgt_class2idx E)) \<longrightarrow>
            set (fst (preserved_tgt_iris E r)) \<union> unfold_iri E ` deleted_tgts r =
              unfold_iri E ` set (tgt_class2idx E) \<and>
            set (fst (preserved_tgt_iris E r)) \<inter> unfold_iri E ` deleted_tgts r = {}"
  proof
    assume inj: "inj_on (unfold_iri E) (set (tgt_class2idx E))"
    have "set (fst (preserved_tgt_iris E r)) = unfold_iri E ` set ?kept" by (simp add: p)
    moreover have "unfold_iri E ` set ?kept \<union> unfold_iri E ` deleted_tgts r =
                   unfold_iri E ` set (tgt_class2idx E)"
      using k1 by (metis image_Un)
    moreover have "unfold_iri E ` set ?kept \<inter> unfold_iri E ` deleted_tgts r = {}"
    proof -
      have "set ?kept \<subseteq> set (tgt_class2idx E)" by auto
      from inj_on_image_Int [OF inj this sub] k2 show ?thesis by simp
    qed
    ultimately show "set (fst (preserved_tgt_iris E r)) \<union> unfold_iri E ` deleted_tgts r =
              unfold_iri E ` set (tgt_class2idx E) \<and>
            set (fst (preserved_tgt_iris E r)) \<inter> unfold_iri E ` deleted_tgts r = {}"
      by simp
  qed
  from first second show ?thesis by blast
qed

theorem preserved_deleted_partition_witness:
  "(static_subs_construct diamond_env diamond_config = Inr (projr diamond_static) \<or>
    online_subs_construct diamond_env diamond_config = Inr (projr diamond_static)) \<and>
   snd ` set (equiv_pairs diamond_config) \<subseteq> set (tgt_class2idx diamond_env) \<and>
   inj_on (unfold_iri diamond_env) (set (tgt_class2idx diamond_env)) \<and>
   fst (preserved_tgt_iris diamond_env (projr diamond_static)) = [''o#D''] \<and>
   set (fst (preserved_tgt_iris diamond_env (projr diamond_static))) \<union>
     unfold_iri diamond_env ` deleted_tgts (projr diamond_static) =
     unfold_iri diamond_env ` set (tgt_class2idx diamond_env) \<and>
   set (fst (preserved_tgt_iris diamond_env (projr diamond_static))) \<inter>
     unfold_iri diamond_env ` deleted_tgts (projr diamond_static) = {}"
proof -
  have a0: "static_subs_construct diamond_env diamond_config = Inr (projr diamond_static)"
    unfolding diamond_static_def by (simp add: example_defs run_defs)
  then have a: "static_subs_construct diamond_env diamond_config = Inr (projr diamond_static) \<or>
    online_subs_construct diamond_env diamond_config = Inr (projr diamond_static)"
    by (rule disjI1)
  have b: "snd ` set (equiv_pairs diamond_config) \<subseteq> set (tgt_class2idx diamond_env)"
    by (simp add: example_defs)
  have c: "inj_on (unfold_iri diamond_env) (set (tgt_class2idx diamond_env))"
    by (simp add: example_defs inj_on_def)
  have p: "fst (preserved_tgt_iris diamond_env (projr diamond_static)) = [''o#D'']"
    unfolding diamond_static_def by (simp add: example_defs run_defs)
  from preserved_deleted_partition [OF a b]
  have "inj_on (unfold_iri diamond_env) (set (tgt_class2idx diamond_env)) \<longrightarrow>
     set (fst (preserved_tgt_iris diamond_env (projr diamond_static))) \<union>
       unfold_iri diamond_env ` deleted_tgts (projr diamond_static) =
       unfold_iri diamond_env ` set (tgt_class2idx diamond_env) \<and>
     set (fst (preserved_tgt_iris diamond_env (projr diamond_static))) \<inter>
       unfold_iri diamond_env ` deleted_tgts (projr diamond_static) = {}"
    by (rule conjunct2)
  then have d: "set (fst (preserved_tgt_iris diamond_env (projr diamond_static))) \<union>
       unfold_iri diamond_env ` deleted_tgts (projr diamond_static) =
       unfold_iri diamond_env ` set (tgt_class2idx diamond_env) \<and>
     set (fst (preserved_tgt_iris diamond_env (projr diamond_static))) \<inter>
       unfold_iri diamond_env ` deleted_tgts (projr diamond_static) = {}"
    using c by (rule mp)
  show ?thesis by (intro conjI a b c p conjunct1 [OF d] conjunct2 [OF d])
qed

text \<open>
  Claim C1 (the cap on accepted neighbours) at a concrete input. On the tree, with
  \<open>max_subs_ratio = 3\<close>, the search from \<open>B\<close> accepts \<open>C\<close> and \<open>D\<close> at the first hop; at
  the second hop the \<open>break\<close> after the third acceptance leaves only the neighbour list of
  the first frontier node, and the neighbours of the second frontier node are accepted as
  well. Five pairs are returned, in either order of the frontier.
\<close>

theorem cap_exceeded_on_tree:
  "max_subs_ratio tree_config = 3 \<and>
   map_sum id fst (subs_from_an_equiv tree_env tree_config ''A'' ''B'' renew_subs) =
     Inr [(''A'', ''C''), (''A'', ''D''), (''A'', ''E''), (''A'', ''G''), (''A'', ''H'')] \<and>
   max_subs_ratio tree_config_rev = 3 \<and>
   map_sum id fst (subs_from_an_equiv tree_env_rev tree_config_rev ''A'' ''B'' renew_subs) =
     Inr [(''A'', ''C''), (''A'', ''D''), (''A'', ''G''), (''A'', ''E''), (''A'', ''F'')]"
  by (simp add: example_defs run_defs)

text \<open>
  Claim C2 (the recorded distance is the depth of the first visit) at a concrete input.
  \<open>D\<close> is a direct super-class of \<open>B\<close> and of \<open>C\<close>. The search from \<open>B\<close> records
  \<open>D\<close> at hop 1, meets it again at hop 2 as a neighbour of \<open>C\<close>, and overwrites the
  entry: the final record holds 2, in either order of the frontier.
\<close>

theorem revisit_overwrites_hop:
  "''D'' \<in> set (move diamond_wide_config ''B'') \<and>
   map_sum id (\<lambda>(subs, r). (subs, hop_record r (''A'', ''D'')))
     (subs_from_an_equiv diamond_env diamond_wide_config ''A'' ''B'' renew_subs) =
     Inr ([(''A'', ''C''), (''A'', ''D'')], Some 2) \<and>
   map_sum id (\<lambda>(subs, r). (subs, hop_record r (''A'', ''D'')))
     (subs_from_an_equiv diamond_env_rev diamond_wide_config_rev ''A'' ''B'' renew_subs) =
     Inr ([(''A'', ''C''), (''A'', ''D'')], Some 2)"
  by (simp add: example_defs run_defs)

end
